theory Spec2Isabelle
  imports Main "HOL-Library.Multiset"
begin

section \<open>Reordering commits: \<^verbatim>\<open>app/src/lib/git/reorder.ts\<close>\<close>

text \<open>
  The function \<^verbatim>\<open>reorder\<close> reads the commit log (newest first), writes a
  todo file of \<^verbatim>\<open>pick\<close> lines in which the commits to move stand right after a
  base commit (or at the end of history), hands the file to the interactive rebase, and
  removes the file again. This theory embeds the function as it is written and proves
  what the todo file holds.
\<close>

subsection \<open>Data\<close>

text \<open>\<^verbatim>\<open>CommitOneLine\<close> of \<^verbatim>\<open>models/commit\<close>: the two fields the function reads.\<close>

record CommitOneLine =
  sha :: string
  summary :: string

text \<open>
  What the \<^verbatim>\<open>try\<close> block can throw. The first three are the
  \<^verbatim>\<open>new Error(...)\<close> of the function itself, named by their kind; \<open>message\<close>
  gives the text of each. \<open>Collaborator\<close> is anything thrown by a function the block
  awaits (\<^verbatim>\<open>getCommits\<close>, \<^verbatim>\<open>getTempFilePath\<close>, \<^verbatim>\<open>FSE.readFile\<close>,
  \<^verbatim>\<open>rebaseInteractive\<close>).
\<close>

datatype error =
  EmptyMoveSet
| EmptyLog
| AnchorNotFound
| Collaborator string

fun message :: "error \<Rightarrow> string" where
  "message EmptyMoveSet = ''[reorder] No commits provided to reorder.''"
| "message EmptyLog =
     ''[reorder] Could not find commits in log for last retained commit ref.''"
| "message AnchorNotFound =
     ''[reorder] The commit to squash onto was not in the log. Continuing would result in dropping the commits in the toMove array.''"
| "message (Collaborator m) = m"

text \<open>
  \<^verbatim>\<open>RebaseResult\<close> is declared in \<^verbatim>\<open>./rebase\<close>; the function names one
  member, \<^verbatim>\<open>RebaseResult.Error\<close>, and returns whatever else the rebase returns.
\<close>

datatype 'r RebaseResult = Error | Other 'r

text \<open>
  The todo file is a sequence of lines, each written by one
  \<^verbatim>\<open>FSE.appendFile(todoPath, `pick ${sha} ${summary}\n`)\<close>. A file is modelled by the
  commits its lines name, in order; \<open>todoText\<close> is the text on disk.
\<close>

type_synonym todo = "CommitOneLine list"

type_synonym files = "string \<rightharpoonup> todo"

definition pickLine :: "CommitOneLine \<Rightarrow> string" where
  "pickLine commit = ''pick '' @ sha commit @ '' '' @ summary commit @ [CHR 0x0A]"

definition todoText :: "todo \<Rightarrow> string" where
  "todoText lines = concat (map pickLine lines)"

text \<open>
  \<^verbatim>\<open>FSE.readFile\<close> throws on a missing file. \<open>remove\<close> is what a call of
  \<^verbatim>\<open>FSE.remove\<close> does to the files once it has run to its end without an error; a
  missing file is no error.
\<close>

definition readFile :: "string \<Rightarrow> files \<Rightarrow> error + todo" where
  "readFile path fs =
     (case fs path of None \<Rightarrow> Inl (Collaborator ''ENOENT'') | Some lines \<Rightarrow> Inr lines)"

definition remove :: "string \<Rightarrow> files \<Rightarrow> files" where
  "remove path fs = fs(path := None)"

text \<open>
  The state outside the function: the files, what \<^verbatim>\<open>console.log\<close> printed, what
  \<^verbatim>\<open>log.error\<close> recorded, and the paths whose removal has been started by a call
  of \<^verbatim>\<open>FSE.remove\<close> that nothing awaits: such a call returns a promise at once and
  the file is still there.
\<close>

record world =
  files :: files
  console :: "string list"
  errorLog :: "error list"
  pendingRemovals :: "string list"

text \<open>
  The functions \<^verbatim>\<open>reorder\<close> imports; none of them is in this file, so they are
  parameters. Each returns a value or throws. The rebase reads the files and may change
  them. The last two say when the file system refuses: \<open>appendFileRejects fs path commit\<close>
  is the error with which \<^verbatim>\<open>FSE.appendFile\<close> of the line for \<open>commit\<close> rejects on the
  files \<open>fs\<close>, if it does, and \<open>removeRejects fs path\<close> the same for
  \<^verbatim>\<open>FSE.remove\<close>.
\<close>

record ('repo, 'r) collaborators =
  getCommits :: "'repo \<Rightarrow> string option \<Rightarrow> error + CommitOneLine list"
  revRange :: "string \<Rightarrow> string \<Rightarrow> string"
  getTempFilePath :: "string \<Rightarrow> error + string"
  rebaseInteractive ::
    "'repo \<Rightarrow> string \<Rightarrow> string option \<Rightarrow> CommitOneLine list \<Rightarrow> files
       \<Rightarrow> (error + 'r RebaseResult) \<times> files"
  appendFileRejects :: "files \<Rightarrow> string \<Rightarrow> CommitOneLine \<Rightarrow> error option"
  removeRejects :: "files \<Rightarrow> string \<Rightarrow> error option"

text \<open>
  \<^verbatim>\<open>await FSE.appendFile(todoPath, `pick ...`)\<close>: it throws when the file system
  refuses, and else adds the line, creating the file when it is missing.
\<close>

definition appendFile ::
  "('repo, 'r) collaborators \<Rightarrow> string \<Rightarrow> CommitOneLine \<Rightarrow> files \<Rightarrow> error + files" where
  "appendFile env path commit fs =
     (case appendFileRejects env fs path commit of
        Some e \<Rightarrow> Inl e
      | None \<Rightarrow>
          Inr (fs(path \<mapsto>
                 (case fs path of None \<Rightarrow> [commit] | Some lines \<Rightarrow> lines @ [commit]))))"

text \<open>
  Awaited calls of \<^verbatim>\<open>FSE.appendFile\<close> one after the other: the first that throws
  ends them, and the lines written before it stay in the file. The result is the error
  thrown, if any, and the files then.
\<close>

fun appendLines ::
  "('repo, 'r) collaborators \<Rightarrow> string \<Rightarrow> todo \<Rightarrow> files \<Rightarrow> error option \<times> files" where
  "appendLines env path [] fs = (None, fs)"
| "appendLines env path (commit # lines) fs =
     (case appendFile env path commit fs of
        Inl e \<Rightarrow> (Some e, fs)
      | Inr fs' \<Rightarrow> appendLines env path lines fs')"

subsection \<open>The traversal (lines 65 to 119)\<close>

text \<open>
  The three local variables of the loop, and \<open>todo\<close>: the lines the loop has passed
  to \<^verbatim>\<open>FSE.appendFile\<close> so far, one for each call, in the order of the calls. What
  the loop does never depends on the file, so the calls are a function of the log; the
  files, and a call that throws, come in with \<open>reorderTry\<close> below.
\<close>

record replay =
  foundBaseCommitInLog :: bool
  toReplayBeforeBaseCommit :: "CommitOneLine list"
  toReplayAfterReorder :: "CommitOneLine list"
  todo :: todo

definition start :: replay where
  "start = \<lparr>foundBaseCommitInLog = False, toReplayBeforeBaseCommit = [],
            toReplayAfterReorder = [], todo = []\<rparr>"

text \<open>\<^verbatim>\<open>afterCommit !== null && commit.sha === afterCommit.sha\<close>\<close>

definition isBaseCommit :: "CommitOneLine option \<Rightarrow> CommitOneLine \<Rightarrow> bool" where
  "isBaseCommit afterCommit commit =
     (case afterCommit of None \<Rightarrow> False | Some base \<Rightarrow> sha commit = sha base)"

text \<open>One turn of the loop body (lines 71 to 118), in the order of its branches.\<close>

definition visit ::
  "string set \<Rightarrow> CommitOneLine option \<Rightarrow> CommitOneLine \<Rightarrow> replay \<Rightarrow> replay" where
  "visit toMoveShas afterCommit commit st =
     (if sha commit \<in> toMoveShas then
        (if foundBaseCommitInLog st
         then st\<lparr>todo := todo st @ [commit]\<rparr>
         else st\<lparr>toReplayBeforeBaseCommit := toReplayBeforeBaseCommit st @ [commit]\<rparr>)
      else if isBaseCommit afterCommit commit then
        st\<lparr>foundBaseCommitInLog := True,
           toReplayBeforeBaseCommit := commit # toReplayBeforeBaseCommit st,
           todo := todo st @ (commit # toReplayBeforeBaseCommit st)\<rparr>
      else if foundBaseCommitInLog st then
        st\<lparr>toReplayAfterReorder := toReplayAfterReorder st @ [commit]\<rparr>
      else st\<lparr>todo := todo st @ [commit]\<rparr>)"

text \<open>
  \<^verbatim>\<open>for (let i = commits.length - 1; i >= 0; i--)\<close>: \<open>traverse \<dots> n\<close> runs the turns
  for \<open>i = n - 1\<close> down to \<open>0\<close>.
\<close>

fun traverse ::
  "string set \<Rightarrow> CommitOneLine option \<Rightarrow> CommitOneLine list \<Rightarrow> nat \<Rightarrow> replay \<Rightarrow> replay"
  where
  "traverse toMoveShas afterCommit commits 0 st = st"
| "traverse toMoveShas afterCommit commits (Suc i) st =
     traverse toMoveShas afterCommit commits i
       (visit toMoveShas afterCommit (commits ! i) st)"

subsection \<open>Writing the todo file (lines 65 to 141)\<close>

text \<open>
  The traversal, then the commits held back after the base commit, then either the moved
  commits (no base commit) or the check that the base commit was seen. The result is the
  error thrown by line 138, if any, and the lines passed to \<^verbatim>\<open>FSE.appendFile\<close> by
  then: every call of \<^verbatim>\<open>FSE.appendFile\<close> stands before line 138.
\<close>

definition writeTodo ::
  "string set \<Rightarrow> CommitOneLine option \<Rightarrow> CommitOneLine list \<Rightarrow> error option \<times> todo" where
  "writeTodo toMoveShas afterCommit commits =
     (let st = traverse toMoveShas afterCommit commits (length commits) start;
          lines = todo st @ toReplayAfterReorder st
      in if afterCommit = None then (None, lines @ toReplayBeforeBaseCommit st)
         else if \<not> foundBaseCommitInLog st then (Some AnchorNotFound, lines)
         else (None, lines))"

text \<open>
  The scheduling part of \<^verbatim>\<open>reorder\<close> on a log \<open>commits\<close> (newest first, as
  \<^verbatim>\<open>getCommits\<close> returns it): the two guards (lines 45 and 58) and the todo file. It
  returns the lines written for the rebase, or the error the function itself throws
  before.
\<close>

definition computeScript ::
  "CommitOneLine list \<Rightarrow> CommitOneLine list \<Rightarrow> CommitOneLine option \<Rightarrow> error + todo" where
  "computeScript commits toMove afterCommit =
     (if length toMove = 0 then Inl EmptyMoveSet
      else if length commits = 0 then Inl EmptyLog
      else case writeTodo (set (map sha toMove)) afterCommit commits of
             (Some e, lines) \<Rightarrow> Inl e
           | (None, lines) \<Rightarrow> Inr lines)"

subsection \<open>The whole function\<close>

text \<open>
  Lines 143 to 153: print the file, run the rebase on it. The rebase is given the
  repository, the path, the last retained commit and the log; the kind of operation
  (always \<^verbatim>\<open>Squash\<close>), the argument left \<^verbatim>\<open>undefined\<close> and the progress callback
  are left out.
\<close>

definition runRebase ::
  "('repo, 'r) collaborators \<Rightarrow> 'repo \<Rightarrow> string \<Rightarrow> string option \<Rightarrow> CommitOneLine list
     \<Rightarrow> world \<Rightarrow> (error + 'r RebaseResult) \<times> world" where
  "runRebase env repository todoPath lastRetainedCommitRef commits w =
     (case readFile todoPath (files w) of
        Inl e \<Rightarrow> (Inl e, w)
      | Inr lines \<Rightarrow>
          (case rebaseInteractive env repository todoPath lastRetainedCommitRef commits
                  (files w) of
             (result, fs) \<Rightarrow>
               (result, w\<lparr>files := fs, console := console w @ [todoText lines]\<rparr>)))"

text \<open>
  The range passed to \<^verbatim>\<open>getCommits\<close> (lines 53 to 55): \<^verbatim>\<open>undefined\<close> when
  there is no last retained commit.
\<close>

definition logRange :: "('repo, 'r) collaborators \<Rightarrow> string option \<Rightarrow> string option" where
  "logRange env lastRetainedCommitRef =
     (case lastRetainedCommitRef of
        None \<Rightarrow> None
      | Some ref \<Rightarrow> Some (revRange env ref ''HEAD''))"

text \<open>
  The \<^verbatim>\<open>try\<close> block: what it throws or returns, the value of \<^verbatim>\<open>todoPath\<close> when
  it is left, and the world then. The lines of \<open>writeTodo\<close> are written in their order;
  a call of \<^verbatim>\<open>FSE.appendFile\<close> that throws ends the block there, with the lines
  written before it in the file. All these calls stand after the two guards and before
  line 138, so a throw of line 138 is reached only when none of them has thrown.
\<close>

definition reorderTry ::
  "('repo, 'r) collaborators \<Rightarrow> 'repo \<Rightarrow> CommitOneLine list \<Rightarrow> CommitOneLine option
     \<Rightarrow> string option \<Rightarrow> world \<Rightarrow> (error + 'r RebaseResult) \<times> string option \<times> world" where
  "reorderTry env repository toMove afterCommit lastRetainedCommitRef w =
     (if length toMove = 0 then (Inl EmptyMoveSet, None, w)
      else
        case getCommits env repository (logRange env lastRetainedCommitRef) of
          Inl e \<Rightarrow> (Inl e, None, w)
        | Inr commits \<Rightarrow>
            if length commits = 0 then (Inl EmptyLog, None, w)
            else
              (case getTempFilePath env ''reorderTodo'' of
                Inl e \<Rightarrow> (Inl e, None, w)
              | Inr todoPath \<Rightarrow>
                  (let (thrown, lines) = writeTodo (set (map sha toMove)) afterCommit commits;
                       (rejected, fs) = appendLines env todoPath lines (files w);
                       w1 = w\<lparr>files := fs\<rparr>
                   in case rejected of
                        Some e \<Rightarrow> (Inl e, Some todoPath, w1)
                      | None \<Rightarrow>
                          (case thrown of
                             Some e \<Rightarrow> (Inl e, Some todoPath, w1)
                           | None \<Rightarrow>
                               (let (result, w2) =
                                      runRebase env repository todoPath lastRetainedCommitRef
                                        commits w1
                                in (result, Some todoPath, w2))))))"

text \<open>
  \<^verbatim>\<open>catch\<close> logs the error and returns \<^verbatim>\<open>RebaseResult.Error\<close>.
  \<^verbatim>\<open>finally\<close> calls \<^verbatim>\<open>FSE.remove(todoPath)\<close> when \<^verbatim>\<open>todoPath\<close> is defined,
  without \<^verbatim>\<open>await\<close> and without a handler (line 159): the removal is started and the
  function returns with the file as it is.
\<close>

definition reorder ::
  "('repo, 'r) collaborators \<Rightarrow> 'repo \<Rightarrow> CommitOneLine list \<Rightarrow> CommitOneLine option
     \<Rightarrow> string option \<Rightarrow> world \<Rightarrow> 'r RebaseResult \<times> world" where
  "reorder env repository toMove afterCommit lastRetainedCommitRef w =
     (case reorderTry env repository toMove afterCommit lastRetainedCommitRef w of
        (outcome, todoPath, w1) \<Rightarrow>
          (let (result, w2) =
                 (case outcome of
                    Inl e \<Rightarrow> (Error, w1\<lparr>errorLog := errorLog w1 @ [e]\<rparr>)
                  | Inr r \<Rightarrow> (r, w1))
           in (result,
               case todoPath of
                 None \<Rightarrow> w2
               | Some path \<Rightarrow> w2\<lparr>pendingRemovals := pendingRemovals w2 @ [path]\<rparr>)))"

text \<open>
  After the function has returned, the removals that were started run to their end, in
  the order of their start: each deletes its file, or rejects and leaves it. Nothing
  handles the rejection.
\<close>

fun settleRemovals :: "('repo, 'r) collaborators \<Rightarrow> string list \<Rightarrow> files \<Rightarrow> files" where
  "settleRemovals env [] fs = fs"
| "settleRemovals env (path # paths) fs =
     settleRemovals env paths
       (case removeRejects env fs path of
          None \<Rightarrow> remove path fs
        | Some e \<Rightarrow> fs)"

definition settle :: "('repo, 'r) collaborators \<Rightarrow> world \<Rightarrow> world" where
  "settle env w =
     w\<lparr>files := settleRemovals env (pendingRemovals w) (files w), pendingRemovals := []\<rparr>"

subsection \<open>A sample history\<close>

text \<open>
  The history of the function's own comment: \<open>A\<close>, \<open>B\<close>, \<open>C\<close>, \<open>D\<close>,
  \<open>E\<close> from oldest to newest, which \<^verbatim>\<open>getCommits\<close> returns newest first.
\<close>

abbreviation cA :: CommitOneLine where "cA \<equiv> \<lparr>sha = ''A'', summary = ''first''\<rparr>"
abbreviation cB :: CommitOneLine where "cB \<equiv> \<lparr>sha = ''B'', summary = ''second''\<rparr>"
abbreviation cC :: CommitOneLine where "cC \<equiv> \<lparr>sha = ''C'', summary = ''third''\<rparr>"
abbreviation cD :: CommitOneLine where "cD \<equiv> \<lparr>sha = ''D'', summary = ''fourth''\<rparr>"
abbreviation cE :: CommitOneLine where "cE \<equiv> \<lparr>sha = ''E'', summary = ''fifth''\<rparr>"
abbreviation cZ :: CommitOneLine where "cZ \<equiv> \<lparr>sha = ''Z'', summary = ''elsewhere''\<rparr>"

abbreviation history :: "CommitOneLine list" where "history \<equiv> [cE, cD, cC, cB, cA]"

text \<open>
  Collaborators to run the function on: the log is the sample history and the temporary
  path is new. With \<open>sampleEnv\<close> the rebase completes; with \<open>failingEnv\<close> it throws;
  with \<open>emptyLogEnv\<close> the log is empty; with \<open>fullDiskEnv\<close> every write is refused;
  with \<open>lockedEnv\<close> the removal is refused.
\<close>

definition sampleEnv :: "(unit, string) collaborators" where
  "sampleEnv =
     \<lparr>getCommits = (\<lambda>repository range. Inr history),
      revRange = (\<lambda>from to. from @ ''..'' @ to),
      getTempFilePath = (\<lambda>name. Inr (''/tmp/desktop-1/'' @ name)),
      rebaseInteractive =
        (\<lambda>repository todoPath ref commits fs. (Inr (Other ''CompletedWithoutError''), fs)),
      appendFileRejects = (\<lambda>fs path commit. None),
      removeRejects = (\<lambda>fs path. None)\<rparr>"

definition failingEnv :: "(unit, string) collaborators" where
  "failingEnv =
     sampleEnv\<lparr>rebaseInteractive :=
       (\<lambda>repository todoPath ref commits fs. (Inl (Collaborator ''rebase failed''), fs))\<rparr>"

definition emptyLogEnv :: "(unit, string) collaborators" where
  "emptyLogEnv = sampleEnv\<lparr>getCommits := (\<lambda>repository range. Inr [])\<rparr>"

definition fullDiskEnv :: "(unit, string) collaborators" where
  "fullDiskEnv =
     sampleEnv\<lparr>appendFileRejects := (\<lambda>fs path commit. Some (Collaborator ''ENOSPC''))\<rparr>"

definition lockedEnv :: "(unit, string) collaborators" where
  "lockedEnv = sampleEnv\<lparr>removeRejects := (\<lambda>fs path. Some (Collaborator ''EPERM''))\<rparr>"

definition emptyWorld :: world where
  "emptyWorld = \<lparr>files = Map.empty, console = [], errorLog = [], pendingRemovals = []\<rparr>"

section \<open>The traversal in closed form\<close>

text \<open>The loop visits the log from its last entry to its first: oldest commit first.\<close>

lemma traverse_foldl:
  "n \<le> length cs \<Longrightarrow>
     traverse S a cs n st = foldl (\<lambda>s c. visit S a c s) st (rev (take n cs))"
proof (induction n arbitrary: st)
  case 0
  then show ?case by simp
next
  case (Suc n)
  then have "take (Suc n) cs = take n cs @ [cs ! n]"
    by (simp add: take_Suc_conv_app_nth)
  with Suc show ?case by simp
qed

lemma traverse_all:
  "traverse S a cs (length cs) st = foldl (\<lambda>s c. visit S a c s) st (rev cs)"
  by (simp add: traverse_foldl)

lemma visit_moved:
  "sha c \<in> S \<Longrightarrow>
   visit S a c st =
     (if foundBaseCommitInLog st then st\<lparr>todo := todo st @ [c]\<rparr>
      else st\<lparr>toReplayBeforeBaseCommit := toReplayBeforeBaseCommit st @ [c]\<rparr>)"
  by (simp add: visit_def)

lemma visit_base:
  "sha c \<notin> S \<Longrightarrow> isBaseCommit a c \<Longrightarrow>
   visit S a c st =
     st\<lparr>foundBaseCommitInLog := True,
        toReplayBeforeBaseCommit := c # toReplayBeforeBaseCommit st,
        todo := todo st @ (c # toReplayBeforeBaseCommit st)\<rparr>"
  by (simp add: visit_def)

lemma visit_other:
  "sha c \<notin> S \<Longrightarrow> \<not> isBaseCommit a c \<Longrightarrow>
   visit S a c st =
     (if foundBaseCommitInLog st
      then st\<lparr>toReplayAfterReorder := toReplayAfterReorder st @ [c]\<rparr>
      else st\<lparr>todo := todo st @ [c]\<rparr>)"
  by (simp add: visit_def)

lemma run_not_found:
  "\<not> foundBaseCommitInLog st \<Longrightarrow>
   \<forall>c\<in>set xs. sha c \<in> S \<or> \<not> isBaseCommit a c \<Longrightarrow>
   foldl (\<lambda>s c. visit S a c s) st xs =
     st\<lparr>toReplayBeforeBaseCommit := toReplayBeforeBaseCommit st @ filter (\<lambda>c. sha c \<in> S) xs,
        todo := todo st @ filter (\<lambda>c. sha c \<notin> S) xs\<rparr>"
proof (induction xs arbitrary: st)
  case Nil
  then show ?case by simp
next
  case (Cons x xs)
  show ?case
  proof (cases "sha x \<in> S")
    case True
    with Cons show ?thesis by (simp add: visit_moved)
  next
    case False
    with Cons.prems have "\<not> isBaseCommit a x" by simp
    with False Cons show ?thesis by (simp add: visit_other)
  qed
qed

lemma run_found:
  "foundBaseCommitInLog st \<Longrightarrow>
   \<forall>c\<in>set xs. sha c \<in> S \<or> \<not> isBaseCommit a c \<Longrightarrow>
   foldl (\<lambda>s c. visit S a c s) st xs =
     st\<lparr>toReplayAfterReorder := toReplayAfterReorder st @ filter (\<lambda>c. sha c \<notin> S) xs,
        todo := todo st @ filter (\<lambda>c. sha c \<in> S) xs\<rparr>"
proof (induction xs arbitrary: st)
  case Nil
  then show ?case by simp
next
  case (Cons x xs)
  show ?case
  proof (cases "sha x \<in> S")
    case True
    with Cons show ?thesis by (simp add: visit_moved)
  next
    case False
    with Cons.prems have "\<not> isBaseCommit a x" by simp
    with False Cons show ?thesis by (simp add: visit_other)
  qed
qed

lemma start_fields [simp]:
  "\<not> foundBaseCommitInLog start" "toReplayBeforeBaseCommit start = []"
  "toReplayAfterReorder start = []" "todo start = []"
  by (simp_all add: start_def)

lemma writeTodo_no_base:
  "writeTodo S None cs =
     (None, filter (\<lambda>c. sha c \<notin> S) (rev cs) @ filter (\<lambda>c. sha c \<in> S) (rev cs))"
proof -
  have "\<forall>c\<in>set (rev cs). sha c \<in> S \<or> \<not> isBaseCommit None c"
    by (simp add: isBaseCommit_def)
  then have "foldl (\<lambda>s c. visit S None c s) start (rev cs) =
      start\<lparr>toReplayBeforeBaseCommit :=
              toReplayBeforeBaseCommit start @ filter (\<lambda>c. sha c \<in> S) (rev cs),
            todo := todo start @ filter (\<lambda>c. sha c \<notin> S) (rev cs)\<rparr>"
    by (intro run_not_found) simp_all
  then show ?thesis
    by (simp add: writeTodo_def traverse_all)
qed

lemma writeTodo_missing:
  assumes "\<forall>c\<in>set cs. sha c \<in> S \<or> \<not> isBaseCommit (Some b) c"
  shows "writeTodo S (Some b) cs = (Some AnchorNotFound, filter (\<lambda>c. sha c \<notin> S) (rev cs))"
proof -
  from assms have "\<forall>c\<in>set (rev cs). sha c \<in> S \<or> \<not> isBaseCommit (Some b) c"
    by simp
  then have "foldl (\<lambda>s c. visit S (Some b) c s) start (rev cs) =
      start\<lparr>toReplayBeforeBaseCommit :=
              toReplayBeforeBaseCommit start @ filter (\<lambda>c. sha c \<in> S) (rev cs),
            todo := todo start @ filter (\<lambda>c. sha c \<notin> S) (rev cs)\<rparr>"
    by (intro run_not_found) simp_all
  then show ?thesis
    by (simp add: writeTodo_def traverse_all)
qed

lemma writeTodo_found:
  assumes split: "rev cs = pre @ c # post"
    and c: "sha c \<notin> S" "isBaseCommit (Some b) c"
    and pre: "\<forall>e\<in>set pre. sha e \<in> S \<or> \<not> isBaseCommit (Some b) e"
    and post: "\<forall>e\<in>set post. sha e \<in> S \<or> \<not> isBaseCommit (Some b) e"
  shows "writeTodo S (Some b) cs =
     (None, filter (\<lambda>e. sha e \<notin> S) pre @ c # filter (\<lambda>e. sha e \<in> S) pre
              @ filter (\<lambda>e. sha e \<in> S) post @ filter (\<lambda>e. sha e \<notin> S) post)"
proof -
  let ?f = "\<lambda>s e. visit S (Some b) e s"
  define s1 where "s1 = foldl ?f start pre"
  define s2 where "s2 = visit S (Some b) c s1"
  have s1: "s1 = start\<lparr>toReplayBeforeBaseCommit := filter (\<lambda>e. sha e \<in> S) pre,
                        todo := filter (\<lambda>e. sha e \<notin> S) pre\<rparr>"
    unfolding s1_def using run_not_found [of start pre S "Some b"] pre by simp
  have s2: "s2 = \<lparr>foundBaseCommitInLog = True,
                  toReplayBeforeBaseCommit = c # filter (\<lambda>e. sha e \<in> S) pre,
                  toReplayAfterReorder = [],
                  todo = filter (\<lambda>e. sha e \<notin> S) pre @ c # filter (\<lambda>e. sha e \<in> S) pre\<rparr>"
    unfolding s2_def by (simp add: visit_base c s1 start_def)
  have "foldl ?f start (rev cs) = foldl ?f s2 post"
    by (simp add: split s1_def s2_def)
  also have "\<dots> = s2\<lparr>toReplayAfterReorder :=
                        toReplayAfterReorder s2 @ filter (\<lambda>e. sha e \<notin> S) post,
                      todo := todo s2 @ filter (\<lambda>e. sha e \<in> S) post\<rparr>"
    by (rule run_found) (simp_all add: s2 post)
  finally show ?thesis
    by (simp add: writeTodo_def traverse_all s2)
qed

lemma writeTodo_anchored:
  assumes ok: "writeTodo S (Some b) cs = (None, lines)"
    and dist: "distinct (map sha cs)"
  shows "\<exists>pre c post. rev cs = pre @ c # post \<and> sha c = sha b \<and> sha c \<notin> S \<and>
           lines = filter (\<lambda>e. sha e \<notin> S) pre @ c # filter (\<lambda>e. sha e \<in> S) pre
                     @ filter (\<lambda>e. sha e \<in> S) post @ filter (\<lambda>e. sha e \<notin> S) post"
proof -
  let ?hit = "\<lambda>e. sha e \<notin> S \<and> isBaseCommit (Some b) e"
  have "\<exists>e\<in>set (rev cs). ?hit e"
  proof (rule ccontr)
    assume "\<not> (\<exists>e\<in>set (rev cs). ?hit e)"
    then have "\<forall>e\<in>set cs. sha e \<in> S \<or> \<not> isBaseCommit (Some b) e" by auto
    from writeTodo_missing [OF this] ok show False by simp
  qed
  from split_list_first_prop [OF this]
  obtain pre c post where split: "rev cs = pre @ c # post"
    and c: "?hit c" and pre: "\<forall>e\<in>set pre. \<not> ?hit e"
    by blast
  have "distinct (map sha (rev cs))"
    using dist by (simp add: rev_map [symmetric])
  then have "sha c \<notin> sha ` set post"
    by (simp add: split)
  then have "\<forall>e\<in>set post. sha e \<noteq> sha c"
    by (metis imageI)
  with c have post: "\<forall>e\<in>set post. sha e \<in> S \<or> \<not> isBaseCommit (Some b) e"
    by (simp add: isBaseCommit_def)
  from pre have pre': "\<forall>e\<in>set pre. sha e \<in> S \<or> \<not> isBaseCommit (Some b) e" by auto
  from c have c1: "sha c \<notin> S" and c2: "isBaseCommit (Some b) c" by simp_all
  from writeTodo_found [OF split c1 c2 pre' post] ok
  have "lines = filter (\<lambda>e. sha e \<notin> S) pre @ c # filter (\<lambda>e. sha e \<in> S) pre
                     @ filter (\<lambda>e. sha e \<in> S) post @ filter (\<lambda>e. sha e \<notin> S) post"
    by simp
  moreover from c2 have "sha c = sha b" by (simp add: isBaseCommit_def)
  moreover note c1
  ultimately show ?thesis using split by blast
qed

subsection \<open>Facts that hold for every log\<close>

lemma visit_keeps:
  assumes "\<not> foundBaseCommitInLog st \<longrightarrow> toReplayAfterReorder st = []"
    and "\<forall>e\<in>set (toReplayBeforeBaseCommit st). sha e \<in> S \<or> isBaseCommit a e"
  shows "filter (\<lambda>e. sha e \<notin> S \<and> \<not> isBaseCommit a e)
           (todo (visit S a c st) @ toReplayAfterReorder (visit S a c st)) =
         filter (\<lambda>e. sha e \<notin> S \<and> \<not> isBaseCommit a e) (todo st @ toReplayAfterReorder st)
           @ filter (\<lambda>e. sha e \<notin> S \<and> \<not> isBaseCommit a e) [c]"
    and "\<not> foundBaseCommitInLog (visit S a c st) \<longrightarrow> toReplayAfterReorder (visit S a c st) = []"
    and "\<forall>e\<in>set (toReplayBeforeBaseCommit (visit S a c st)). sha e \<in> S \<or> isBaseCommit a e"
  using assms by (auto simp add: visit_def filter_empty_conv)

lemma run_keeps:
  assumes "\<not> foundBaseCommitInLog st \<longrightarrow> toReplayAfterReorder st = []"
    and "\<forall>e\<in>set (toReplayBeforeBaseCommit st). sha e \<in> S \<or> isBaseCommit a e"
  shows "filter (\<lambda>e. sha e \<notin> S \<and> \<not> isBaseCommit a e)
           (todo (foldl (\<lambda>s c. visit S a c s) st xs)
              @ toReplayAfterReorder (foldl (\<lambda>s c. visit S a c s) st xs)) =
         filter (\<lambda>e. sha e \<notin> S \<and> \<not> isBaseCommit a e) (todo st @ toReplayAfterReorder st)
           @ filter (\<lambda>e. sha e \<notin> S \<and> \<not> isBaseCommit a e) xs
         \<and> (\<forall>e\<in>set (toReplayBeforeBaseCommit (foldl (\<lambda>s c. visit S a c s) st xs)).
               sha e \<in> S \<or> isBaseCommit a e)"
  using assms
proof (induction xs arbitrary: st)
  case Nil
  then show ?case by simp
next
  case (Cons x xs)
  note step = visit_keeps [OF Cons.prems, of x]
  from Cons.IH [OF step(2) step(3)] step(1)
  show ?case by simp
qed

lemma writeTodo_nonmovers:
  assumes "writeTodo S a cs = (None, lines)"
  shows "filter (\<lambda>e. sha e \<notin> S \<and> \<not> isBaseCommit a e) lines =
         filter (\<lambda>e. sha e \<notin> S \<and> \<not> isBaseCommit a e) (rev cs)"
proof -
  let ?st = "foldl (\<lambda>s c. visit S a c s) start (rev cs)"
  let ?P = "\<lambda>e. sha e \<notin> S \<and> \<not> isBaseCommit a e"
  have keep: "filter ?P (todo ?st @ toReplayAfterReorder ?st) = filter ?P (rev cs)"
    and before: "\<forall>e\<in>set (toReplayBeforeBaseCommit ?st). sha e \<in> S \<or> isBaseCommit a e"
    using run_keeps [of start S a "rev cs"] by simp_all
  from before have "filter ?P (toReplayBeforeBaseCommit ?st) = []"
    by (auto simp add: filter_empty_conv)
  with keep assms show ?thesis
    by (auto simp add: writeTodo_def traverse_all Let_def split: if_splits)
qed

lemma visit_within:
  "set (todo (visit S a c st)) \<union> set (toReplayBeforeBaseCommit (visit S a c st))
     \<union> set (toReplayAfterReorder (visit S a c st))
   \<subseteq> insert c (set (todo st) \<union> set (toReplayBeforeBaseCommit st)
                    \<union> set (toReplayAfterReorder st))"
  by (auto simp add: visit_def)

lemma run_within:
  "set (todo (foldl (\<lambda>s c. visit S a c s) st xs))
     \<union> set (toReplayBeforeBaseCommit (foldl (\<lambda>s c. visit S a c s) st xs))
     \<union> set (toReplayAfterReorder (foldl (\<lambda>s c. visit S a c s) st xs))
   \<subseteq> set xs \<union> (set (todo st) \<union> set (toReplayBeforeBaseCommit st)
                    \<union> set (toReplayAfterReorder st))"
proof (induction xs arbitrary: st)
  case Nil
  then show ?case by simp
next
  case (Cons x xs)
  from Cons.IH [of "visit S a x st"] visit_within [of S a x st]
  show ?case by auto
qed

lemma writeTodo_within: "set (snd (writeTodo S a cs)) \<subseteq> set cs"
  using run_within [of S a start "rev cs"]
  by (auto simp add: writeTodo_def traverse_all Let_def)

lemma run_found_todo:
  "foundBaseCommitInLog st \<longrightarrow> todo st \<noteq> [] \<Longrightarrow>
   foundBaseCommitInLog (foldl (\<lambda>s c. visit S a c s) st xs)
     \<longrightarrow> todo (foldl (\<lambda>s c. visit S a c s) st xs) \<noteq> []"
proof (induction xs arbitrary: st)
  case Nil
  then show ?case by simp
next
  case (Cons x xs)
  have "foundBaseCommitInLog (visit S a x st) \<longrightarrow> todo (visit S a x st) \<noteq> []"
    using Cons.prems by (auto simp add: visit_def)
  from Cons.IH [OF this] show ?case by simp
qed

lemma writeTodo_lines:
  assumes "cs \<noteq> []" and "writeTodo S a cs = (None, lines)"
  shows "lines \<noteq> []"
proof (cases a)
  case None
  with assms(2) have "lines = filter (\<lambda>c. sha c \<notin> S) (rev cs) @ filter (\<lambda>c. sha c \<in> S) (rev cs)"
    by (simp add: writeTodo_no_base)
  moreover have "length (filter (\<lambda>c. sha c \<notin> S) (rev cs)) + length (filter (\<lambda>c. sha c \<in> S) (rev cs))
      = length (rev cs)"
    using sum_length_filter_compl [of "\<lambda>c. sha c \<notin> S" "rev cs"] by simp
  ultimately show ?thesis using assms(1) by auto
next
  case (Some b)
  with assms(2) run_found_todo [of start S a "rev cs"] show ?thesis
    by (auto simp add: writeTodo_def traverse_all Let_def split: if_splits)
qed

section \<open>What the todo file holds\<close>

lemma computeScript_Inr:
  "computeScript commits toMove a = Inr script \<longleftrightarrow>
     toMove \<noteq> [] \<and> commits \<noteq> [] \<and> writeTodo (set (map sha toMove)) a commits = (None, script)"
  by (auto simp add: computeScript_def split: prod.splits option.splits)

lemma computeScript_sample:
  "computeScript history [cE, cA] (Some cC) = Inr [cB, cC, cA, cE, cD]"
  by (simp add: computeScript_def writeTodo_def visit_def isBaseCommit_def start_def)

lemma writeTodo_mset:
  assumes "writeTodo S a cs = (None, lines)" and "distinct (map sha cs)"
  shows "mset lines = mset cs"
proof (cases a)
  case None
  with assms(1) have "lines = filter (\<lambda>c. sha c \<notin> S) (rev cs) @ filter (\<lambda>c. sha c \<in> S) (rev cs)"
    by (simp add: writeTodo_no_base)
  then have "mset lines = mset (rev cs)"
    by (simp add: add.commute)
  then show ?thesis by simp
next
  case (Some b)
  with assms writeTodo_anchored [of S b cs lines]
  obtain pre c post where split: "rev cs = pre @ c # post"
    and lines: "lines = filter (\<lambda>e. sha e \<notin> S) pre @ c # filter (\<lambda>e. sha e \<in> S) pre
                     @ filter (\<lambda>e. sha e \<in> S) post @ filter (\<lambda>e. sha e \<notin> S) post"
    by blast
  have "mset lines = mset (pre @ c # post)"
    unfolding lines by (simp add: ac_simps)
  with split show ?thesis
    by (metis mset_rev)
qed

text \<open>
  C1 (conservation). Whenever the scheduling succeeds on a log without duplicate hashes,
  the hashes of the lines written are, as a multiset, the hashes of the log, and there
  are as many lines as log entries: no commit is dropped or picked twice.
\<close>

theorem conservation:
  assumes "computeScript commits toMove afterCommit = Inr script"
    and "distinct (map sha commits)"
  shows "mset (map sha script) = mset (map sha commits) \<and> length script = length commits"
proof -
  from assms(1) have "writeTodo (set (map sha toMove)) afterCommit commits = (None, script)"
    by (simp add: computeScript_Inr)
  from writeTodo_mset [OF this assms(2)] have eq: "mset script = mset commits" .
  then have "image_mset sha (mset script) = image_mset sha (mset commits)" by simp
  moreover from eq have "size (mset script) = size (mset commits)" by simp
  ultimately show ?thesis by simp
qed

theorem conservation_witness:
  "computeScript history [cE, cA] (Some cC) = Inr [cB, cC, cA, cE, cD]
   \<and> distinct (map sha history)
   \<and> mset (map sha [cB, cC, cA, cE, cD]) = mset (map sha history)
   \<and> length [cB, cC, cA, cE, cD] = length history"
proof -
  have d: "distinct (map sha history)" by simp
  note t = conservation [OF computeScript_sample d]
  show ?thesis
    by (intro conjI) (rule computeScript_sample d t [THEN conjunct1] t [THEN conjunct2])+
qed

text \<open>
  C2 (anchored block). On a successful run with a base commit \<open>a\<close> and a log without
  duplicate hashes, the log (oldest first) splits at the entry \<open>c\<close> with the hash of
  \<open>a\<close>, and the file holds: the entries before \<open>c\<close> that are not moved, in log
  order; then \<open>c\<close>; then the moved entries from before \<open>c\<close>, in log order; then the
  moved entries from after \<open>c\<close>, in log order; then the entries after \<open>c\<close> that
  are not moved, in log order.
\<close>

theorem anchored_block:
  assumes "computeScript commits toMove (Some a) = Inr script"
    and "distinct (map sha commits)"
  shows "\<exists>pre c post.
           rev commits = pre @ c # post \<and> sha c = sha a \<and>
           script = filter (\<lambda>e. sha e \<notin> set (map sha toMove)) pre
                      @ [c]
                      @ filter (\<lambda>e. sha e \<in> set (map sha toMove)) pre
                      @ filter (\<lambda>e. sha e \<in> set (map sha toMove)) post
                      @ filter (\<lambda>e. sha e \<notin> set (map sha toMove)) post"
proof -
  from assms(1) have "writeTodo (set (map sha toMove)) (Some a) commits = (None, script)"
    by (simp add: computeScript_Inr)
  from writeTodo_anchored [OF this assms(2)] show ?thesis
    by fastforce
qed

theorem anchored_block_witness:
  "computeScript history [cE, cA] (Some cC) = Inr [cB, cC, cA, cE, cD]
   \<and> distinct (map sha history)
   \<and> (\<exists>pre c post.
           rev history = pre @ c # post \<and> sha c = sha cC \<and>
           [cB, cC, cA, cE, cD] =
             filter (\<lambda>e. sha e \<notin> set (map sha [cE, cA])) pre
               @ [c]
               @ filter (\<lambda>e. sha e \<in> set (map sha [cE, cA])) pre
               @ filter (\<lambda>e. sha e \<in> set (map sha [cE, cA])) post
               @ filter (\<lambda>e. sha e \<notin> set (map sha [cE, cA])) post)"
proof -
  have d: "distinct (map sha history)" by simp
  show ?thesis
    by (intro conjI) (rule computeScript_sample d anchored_block [OF computeScript_sample d])+
qed

lemma computeScript_sample_tail:
  "computeScript history [cB] None = Inr [cA, cC, cD, cE, cB]"
  by (simp add: computeScript_def writeTodo_def visit_def isBaseCommit_def start_def)

text \<open>
  C3 (tail placement). On a successful run without a base commit, the file holds the
  entries that are not moved, in log order (oldest first), and after them the moved
  entries, in log order, up to the end of the file.
\<close>

theorem tail_placement:
  assumes "computeScript commits toMove None = Inr script"
  shows "script = filter (\<lambda>e. sha e \<notin> set (map sha toMove)) (rev commits)
                    @ filter (\<lambda>e. sha e \<in> set (map sha toMove)) (rev commits)"
  using assms by (simp add: computeScript_Inr writeTodo_no_base)

theorem tail_placement_witness:
  "computeScript history [cB] None = Inr [cA, cC, cD, cE, cB]
   \<and> [cA, cC, cD, cE, cB] =
       filter (\<lambda>e. sha e \<notin> set (map sha [cB])) (rev history)
         @ filter (\<lambda>e. sha e \<in> set (map sha [cB])) (rev history)"
  by (intro conjI)
    (rule computeScript_sample_tail tail_placement [OF computeScript_sample_tail])+

text \<open>
  C4 (order of the entries that stay). On every successful run, the log (oldest first)
  and the file, both restricted to the entries whose hash is neither moved nor the hash
  of the base commit, are the same sequence. No condition on the log is needed.
\<close>

theorem nonmover_order:
  assumes "computeScript commits toMove afterCommit = Inr script"
  shows "filter (\<lambda>e. sha e \<notin> set (map sha toMove) \<and> \<not> isBaseCommit afterCommit e) script =
         filter (\<lambda>e. sha e \<notin> set (map sha toMove) \<and> \<not> isBaseCommit afterCommit e) (rev commits)"
proof -
  from assms have "writeTodo (set (map sha toMove)) afterCommit commits = (None, script)"
    by (simp add: computeScript_Inr)
  then show ?thesis by (rule writeTodo_nonmovers)
qed

lemma nonmovers_sample:
  "filter (\<lambda>e. sha e \<notin> set (map sha [cE, cA]) \<and> \<not> isBaseCommit (Some cC) e)
        (rev history) = [cB, cD]"
  by (simp add: isBaseCommit_def)

theorem nonmover_order_witness:
  "computeScript history [cE, cA] (Some cC) = Inr [cB, cC, cA, cE, cD]
   \<and> filter (\<lambda>e. sha e \<notin> set (map sha [cE, cA]) \<and> \<not> isBaseCommit (Some cC) e)
        [cB, cC, cA, cE, cD] =
      filter (\<lambda>e. sha e \<notin> set (map sha [cE, cA]) \<and> \<not> isBaseCommit (Some cC) e)
        (rev history)
   \<and> filter (\<lambda>e. sha e \<notin> set (map sha [cE, cA]) \<and> \<not> isBaseCommit (Some cC) e)
        (rev history) = [cB, cD]"
  by (intro conjI)
    (rule computeScript_sample nonmover_order [OF computeScript_sample] nonmovers_sample)+

subsection \<open>The commits to move count as a set\<close>

lemma writeTodo_movers:
  assumes "writeTodo S a cs = (None, lines)" and "distinct (map sha cs)"
  shows "filter (\<lambda>e. sha e \<in> S) lines = filter (\<lambda>e. sha e \<in> S) (rev cs)"
proof (cases a)
  case None
  with assms(1) show ?thesis
    by (auto simp add: writeTodo_no_base filter_empty_conv)
next
  case (Some b)
  with assms writeTodo_anchored [of S b cs lines]
  obtain pre c post where split: "rev cs = pre @ c # post" and c: "sha c \<notin> S"
    and lines: "lines = filter (\<lambda>e. sha e \<notin> S) pre @ c # filter (\<lambda>e. sha e \<in> S) pre
                     @ filter (\<lambda>e. sha e \<in> S) post @ filter (\<lambda>e. sha e \<notin> S) post"
    by blast
  have "filter (\<lambda>e. sha e \<in> S) (filter (\<lambda>e. sha e \<notin> S) pre) = []"
    "filter (\<lambda>e. sha e \<in> S) (filter (\<lambda>e. sha e \<notin> S) post) = []"
    by (simp_all add: filter_empty_conv)
  with c show ?thesis
    by (simp add: lines split)
qed

lemma computeScript_moveSet:
  assumes "set (map sha toMove) = set (map sha toMove')"
  shows "computeScript commits toMove a = computeScript commits toMove' a"
proof -
  from assms have "toMove = [] \<longleftrightarrow> toMove' = []"
    by (metis map_is_Nil_conv set_empty)
  with assms show ?thesis
    by (simp add: computeScript_def)
qed

text \<open>
  C5 (the order of \<^verbatim>\<open>toMove\<close> does not count). Two lists of commits to move with
  the same set of hashes give the same result, whatever their order and repetitions; and
  on a successful run over a log without duplicate hashes, the file and the log (oldest
  first), both restricted to the moved entries, are the same sequence.
\<close>

theorem moveSet_order_independence:
  "(set (map sha toMove) = set (map sha toMove') \<longrightarrow>
      computeScript commits toMove a = computeScript commits toMove' a)
   \<and> (computeScript commits toMove a = Inr script \<and> distinct (map sha commits) \<longrightarrow>
        filter (\<lambda>e. sha e \<in> set (map sha toMove)) script =
        filter (\<lambda>e. sha e \<in> set (map sha toMove)) (rev commits))"
proof (intro conjI impI)
  assume "set (map sha toMove) = set (map sha toMove')"
  then show "computeScript commits toMove a = computeScript commits toMove' a"
    by (rule computeScript_moveSet)
next
  assume "computeScript commits toMove a = Inr script \<and> distinct (map sha commits)"
  then have "writeTodo (set (map sha toMove)) a commits = (None, script)"
    and "distinct (map sha commits)"
    by (simp_all add: computeScript_Inr)
  then show "filter (\<lambda>e. sha e \<in> set (map sha toMove)) script =
        filter (\<lambda>e. sha e \<in> set (map sha toMove)) (rev commits)"
    by (rule writeTodo_movers)
qed

lemma moveSet_sample: "set (map sha [cE, cA]) = set (map sha [cA, cE, cA])"
  by auto

lemma movers_sample:
  "filter (\<lambda>e. sha e \<in> set (map sha [cE, cA])) (rev history) = [cA, cE]"
  by simp

theorem moveSet_order_independence_witness:
  "set (map sha [cE, cA]) = set (map sha [cA, cE, cA])
   \<and> computeScript history [cE, cA] (Some cC) = computeScript history [cA, cE, cA] (Some cC)
   \<and> computeScript history [cE, cA] (Some cC) = Inr [cB, cC, cA, cE, cD]
   \<and> distinct (map sha history)
   \<and> filter (\<lambda>e. sha e \<in> set (map sha [cE, cA])) [cB, cC, cA, cE, cD] =
      filter (\<lambda>e. sha e \<in> set (map sha [cE, cA])) (rev history)
   \<and> filter (\<lambda>e. sha e \<in> set (map sha [cE, cA])) (rev history) = [cA, cE]"
proof -
  have d: "distinct (map sha history)" by simp
  note t = moveSet_order_independence
         [of "[cE, cA]" "[cA, cE, cA]" history "Some cC" "[cB, cC, cA, cE, cD]"]
  note t1 = t [THEN conjunct1, rule_format, OF moveSet_sample]
  note t2 = t [THEN conjunct2, rule_format, OF conjI [OF computeScript_sample d]]
  show ?thesis
    by (intro conjI) (rule moveSet_sample t1 computeScript_sample d t2 movers_sample)+
qed

section \<open>The function on the file system\<close>

text \<open>
  What the writes leave at the path written, when none is refused, and elsewhere.
\<close>

lemma appendLines_written:
  "fst (appendLines env p ls fs) = None \<Longrightarrow>
   snd (appendLines env p ls fs) =
     (if ls = [] then fs
      else fs(p \<mapsto> (case fs p of None \<Rightarrow> [] | Some old \<Rightarrow> old) @ ls))"
proof (induction ls arbitrary: fs)
  case Nil
  then show ?case by simp
next
  case (Cons c ls)
  define old where "old = (case fs p of None \<Rightarrow> [] | Some old \<Rightarrow> old)"
  show ?case
  proof (cases "appendFileRejects env fs p c")
    case (Some e)
    with Cons.prems show ?thesis by (simp add: appendFile_def)
  next
    case None
    then have "appendFile env p c fs = Inr (fs(p \<mapsto> old @ [c]))"
      by (simp add: appendFile_def old_def split: option.splits)
    then have step: "appendLines env p (c # ls) fs = appendLines env p ls (fs(p \<mapsto> old @ [c]))"
      by simp
    with Cons.prems have "fst (appendLines env p ls (fs(p \<mapsto> old @ [c]))) = None"
      by simp
    note ih = Cons.IH [OF this]
    have "snd (appendLines env p ls (fs(p \<mapsto> old @ [c]))) = fs(p \<mapsto> old @ c # ls)"
    proof (cases "ls = []")
      case True
      then show ?thesis by simp
    next
      case False
      with ih have "snd (appendLines env p ls (fs(p \<mapsto> old @ [c]))) =
          (fs(p \<mapsto> old @ [c]))
            (p \<mapsto> (case (fs(p \<mapsto> old @ [c])) p of None \<Rightarrow> [] | Some old \<Rightarrow> old) @ ls)"
        by (simp only: if_False)
      also have "\<dots> = fs(p \<mapsto> old @ c # ls)"
        by simp
      finally show ?thesis .
    qed
    with step show ?thesis
      by (simp add: old_def)
  qed
qed

lemma appendLines_other: "q \<noteq> p \<Longrightarrow> snd (appendLines env p ls fs) q = fs q"
proof (induction ls arbitrary: fs)
  case Nil
  then show ?case by simp
next
  case (Cons c ls)
  then show ?case
    by (cases "appendFileRejects env fs p c") (simp_all add: appendFile_def)
qed

lemma readFile_appendLines:
  "ls \<noteq> [] \<Longrightarrow> fst (appendLines env p ls fs) = None \<Longrightarrow>
   readFile p (snd (appendLines env p ls fs)) =
     Inr ((case fs p of None \<Rightarrow> [] | Some old \<Rightarrow> old) @ ls)"
  by (simp add: readFile_def appendLines_written)

text \<open>
  How the \<^verbatim>\<open>try\<close> block runs through \<open>computeScript\<close>: when the log is
  \<open>commits\<close>, the temporary path is \<open>p\<close> and no write is refused, a script is
  appended to the file at \<open>p\<close>, printed, and the rebase runs on it;
  \<^verbatim>\<open>FSE.readFile\<close> cannot throw there, since a script for a log that is not empty
  has a line. A write that is refused ends the block with its error.
\<close>

lemma reorderTry_scheduled:
  assumes "getCommits env repository (logRange env ref) = Inr commits"
    and "getTempFilePath env ''reorderTodo'' = Inr p"
    and "computeScript commits toMove a = Inr script"
    and "fst (appendLines env p script (files w)) = None"
  shows "reorderTry env repository toMove a ref w =
     (case rebaseInteractive env repository p ref commits
             (snd (appendLines env p script (files w))) of
        (result, fs) \<Rightarrow>
          (result, Some p,
           w\<lparr>files := fs,
             console := console w
               @ [todoText ((case files w p of None \<Rightarrow> [] | Some old \<Rightarrow> old) @ script)]\<rparr>))"
proof -
  from assms(3) have toMove: "toMove \<noteq> []" and commits: "commits \<noteq> []"
    and w: "writeTodo (set (map sha toMove)) a commits = (None, script)"
    by (simp_all add: computeScript_Inr)
  from writeTodo_lines [OF commits w] have "script \<noteq> []" .
  from readFile_appendLines [OF this assms(4)]
  have read: "readFile p (snd (appendLines env p script (files w))) =
      Inr ((case files w p of None \<Rightarrow> [] | Some old \<Rightarrow> old) @ script)" .
  obtain fs1 where written: "appendLines env p script (files w) = (None, fs1)"
    using assms(4) by (cases "appendLines env p script (files w)") simp
  obtain result fs where rebase:
    "rebaseInteractive env repository p ref commits fs1 = (result, fs)"
    by (cases "rebaseInteractive env repository p ref commits fs1")
  from read written rebase
  have "runRebase env repository p ref commits (w\<lparr>files := fs1\<rparr>) =
        (result,
         w\<lparr>files := fs,
           console := console w
             @ [todoText ((case files w p of None \<Rightarrow> [] | Some old \<Rightarrow> old) @ script)]\<rparr>)"
    by (simp add: runRebase_def)
  with toMove commits w assms(1,2) written rebase show ?thesis
    by (simp add: reorderTry_def)
qed

lemma reorderTry_write_rejected:
  assumes "toMove \<noteq> []"
    and "getCommits env repository (logRange env ref) = Inr commits"
    and "commits \<noteq> []"
    and "getTempFilePath env ''reorderTodo'' = Inr p"
    and "appendLines env p (snd (writeTodo (set (map sha toMove)) a commits)) (files w)
           = (Some e, fs)"
  shows "reorderTry env repository toMove a ref w = (Inl e, Some p, w\<lparr>files := fs\<rparr>)"
proof -
  obtain thrown lines where w: "writeTodo (set (map sha toMove)) a commits = (thrown, lines)"
    by (cases "writeTodo (set (map sha toMove)) a commits")
  with assms show ?thesis
    by (simp add: reorderTry_def)
qed

lemma reorderTry_anchor_missing:
  assumes "toMove \<noteq> []"
    and "getCommits env repository (logRange env ref) = Inr commits"
    and "commits \<noteq> []"
    and "getTempFilePath env ''reorderTodo'' = Inr p"
    and "writeTodo (set (map sha toMove)) (Some a) commits = (Some AnchorNotFound, lines)"
  shows "reorderTry env repository toMove (Some a) ref w =
           (Inl (case fst (appendLines env p lines (files w)) of
                   None \<Rightarrow> AnchorNotFound
                 | Some e \<Rightarrow> e),
            Some p, w\<lparr>files := snd (appendLines env p lines (files w))\<rparr>)"
proof -
  obtain rejected fs where a: "appendLines env p lines (files w) = (rejected, fs)"
    by (cases "appendLines env p lines (files w)")
  with assms show ?thesis
    by (cases rejected) (simp_all add: reorderTry_def)
qed

lemma reorder_anchor_missing:
  assumes "toMove \<noteq> []"
    and "getCommits env repository (logRange env ref) = Inr commits"
    and "commits \<noteq> []"
    and "getTempFilePath env ''reorderTodo'' = Inr p"
    and "writeTodo (set (map sha toMove)) (Some a) commits = (Some AnchorNotFound, lines)"
  shows "reorder env repository toMove (Some a) ref w =
           (Error,
            w\<lparr>files := snd (appendLines env p lines (files w)),
              errorLog := errorLog w
                @ [case fst (appendLines env p lines (files w)) of
                     None \<Rightarrow> AnchorNotFound
                   | Some e \<Rightarrow> e],
              pendingRemovals := pendingRemovals w @ [p]\<rparr>)"
  by (simp add: reorder_def reorderTry_anchor_missing [OF assms])

lemma reorderTry_todoPath:
  "fst (snd (reorderTry env repository toMove a ref w)) =
     (if toMove = [] then None
      else case getCommits env repository (logRange env ref) of
             Inl e \<Rightarrow> None
           | Inr commits \<Rightarrow>
               if commits = [] then None
               else (case getTempFilePath env ''reorderTodo'' of
                       Inl e \<Rightarrow> None
                     | Inr p \<Rightarrow> Some p))"
  by (simp add: reorderTry_def Let_def split: sum.splits prod.splits option.splits)

lemma reorderTry_untouched:
  "fst (snd (reorderTry env repository toMove a ref w)) = None \<Longrightarrow>
   snd (snd (reorderTry env repository toMove a ref w)) = w"
  by (simp add: reorderTry_def Let_def split: sum.splits prod.splits option.splits if_splits)

lemma reorderTry_pendingRemovals:
  "pendingRemovals (snd (snd (reorderTry env repository toMove a ref w))) = pendingRemovals w"
  by (simp add: reorderTry_def runRebase_def Let_def
        split: sum.splits prod.splits option.splits)

lemma reorder_files:
  "files (snd (reorder env repository toMove a ref w)) =
     files (snd (snd (reorderTry env repository toMove a ref w)))"
  by (simp add: reorder_def split: sum.splits prod.splits option.splits)

lemma reorder_pendingRemovals:
  "pendingRemovals (snd (reorder env repository toMove a ref w)) =
     (case fst (snd (reorderTry env repository toMove a ref w)) of
        None \<Rightarrow> pendingRemovals w
      | Some p \<Rightarrow> pendingRemovals w @ [p])"
proof -
  obtain outcome todoPath w1
    where t: "reorderTry env repository toMove a ref w = (outcome, todoPath, w1)"
    by (cases "reorderTry env repository toMove a ref w")
  with reorderTry_pendingRemovals [of env repository toMove a ref w]
  have "pendingRemovals w1 = pendingRemovals w" by simp
  with t show ?thesis
    by (simp add: reorder_def split: sum.splits option.splits)
qed

lemma sampleEnv_getCommits: "getCommits sampleEnv () (logRange sampleEnv None) = Inr history"
  by (simp add: sampleEnv_def)

lemma sampleEnv_getTempFilePath:
  "getTempFilePath sampleEnv ''reorderTodo'' = Inr ''/tmp/desktop-1/reorderTodo''"
  by (simp add: sampleEnv_def)

lemma sampleEnv_writes: "fst (appendLines sampleEnv p ls fs) = None"
  by (induction ls arbitrary: fs) (simp_all add: appendFile_def sampleEnv_def)

lemma sampleEnv_appendLines:
  "appendLines sampleEnv ''/tmp/desktop-1/reorderTodo'' ls (files emptyWorld) =
     (None, if ls = [] then Map.empty else [''/tmp/desktop-1/reorderTodo'' \<mapsto> ls])"
  using appendLines_written [OF sampleEnv_writes, of "''/tmp/desktop-1/reorderTodo''" ls
          "files emptyWorld"]
    sampleEnv_writes [of "''/tmp/desktop-1/reorderTodo''" ls "files emptyWorld"]
  by (simp add: prod_eq_iff emptyWorld_def)

lemma emptyLogEnv_getCommits: "getCommits emptyLogEnv () (logRange emptyLogEnv None) = Inr []"
  by (simp add: emptyLogEnv_def sampleEnv_def)

text \<open>
  The sample run from end to end. The rebase completes; when the function returns, the
  file is still there with its five lines, and its removal has been started.
\<close>

lemma sampleEnv_reorder:
  "reorder sampleEnv () [cE, cA] (Some cC) None emptyWorld =
     (Other ''CompletedWithoutError'',
      emptyWorld\<lparr>files := [''/tmp/desktop-1/reorderTodo'' \<mapsto> [cB, cC, cA, cE, cD]],
                 console := [todoText [cB, cC, cA, cE, cD]],
                 pendingRemovals := [''/tmp/desktop-1/reorderTodo'']\<rparr>)"
proof -
  have rebase: "rebaseInteractive sampleEnv () ''/tmp/desktop-1/reorderTodo'' None history fs =
        (Inr (Other ''CompletedWithoutError''), fs)" for fs
    by (simp add: sampleEnv_def)
  have written: "appendLines sampleEnv ''/tmp/desktop-1/reorderTodo'' [cB, cC, cA, cE, cD]
        (files emptyWorld) = (None, [''/tmp/desktop-1/reorderTodo'' \<mapsto> [cB, cC, cA, cE, cD]])"
    by (subst sampleEnv_appendLines) simp
  have empty: "files emptyWorld ''/tmp/desktop-1/reorderTodo'' = None"
    "console emptyWorld = []" "pendingRemovals emptyWorld = []"
    by (simp_all add: emptyWorld_def)
  note reorderTry_scheduled
         [OF sampleEnv_getCommits sampleEnv_getTempFilePath computeScript_sample
             sampleEnv_writes, of emptyWorld]
  then have "reorderTry sampleEnv () [cE, cA] (Some cC) None emptyWorld =
      (Inr (Other ''CompletedWithoutError''), Some ''/tmp/desktop-1/reorderTodo'',
       emptyWorld\<lparr>files := [''/tmp/desktop-1/reorderTodo'' \<mapsto> [cB, cC, cA, cE, cD]],
                  console := [todoText [cB, cC, cA, cE, cD]]\<rparr>)"
    by (simp add: rebase written empty del: appendLines.simps)
  then show ?thesis
    by (simp add: reorder_def empty)
qed

lemma todoText_sample:
  "todoText [cB, cC] = ''pick B second'' @ [CHR 0x0A] @ ''pick C third'' @ [CHR 0x0A]"
  by (simp add: todoText_def pickLine_def)

text \<open>
  A write that is refused: the \<^verbatim>\<open>try\<close> block is left with the error of the write,
  the function returns \<^verbatim>\<open>RebaseResult.Error\<close>, and the removal is started all the
  same.
\<close>

lemma fullDiskEnv_reorder:
  "reorder fullDiskEnv () [cE, cA] (Some cC) None emptyWorld =
     (Error,
      emptyWorld\<lparr>errorLog := [Collaborator ''ENOSPC''],
                 pendingRemovals := [''/tmp/desktop-1/reorderTodo'']\<rparr>)"
  by (simp add: reorder_def reorderTry_def fullDiskEnv_def sampleEnv_def logRange_def
        writeTodo_def visit_def isBaseCommit_def start_def appendFile_def emptyWorld_def)

text \<open>
  A rebase that throws: the same, with the five lines still in the file.
\<close>

lemma failingEnv_reorder:
  "fst (reorder failingEnv () [cE, cA] (Some cC) None emptyWorld) = Error
   \<and> errorLog (snd (reorder failingEnv () [cE, cA] (Some cC) None emptyWorld)) =
        [Collaborator ''rebase failed'']
   \<and> files (snd (reorder failingEnv () [cE, cA] (Some cC) None emptyWorld))
        ''/tmp/desktop-1/reorderTodo'' = Some [cB, cC, cA, cE, cD]
   \<and> pendingRemovals (snd (reorder failingEnv () [cE, cA] (Some cC) None emptyWorld)) =
        [''/tmp/desktop-1/reorderTodo'']"
  by (simp add: reorder_def reorderTry_def runRebase_def readFile_def failingEnv_def
        sampleEnv_def logRange_def writeTodo_def visit_def isBaseCommit_def start_def
        appendFile_def emptyWorld_def)

text \<open>
  Later, the removal that was started deletes the file, unless it is refused: then the
  file stays.
\<close>

lemma settle_removes:
  "removeRejects env fs p = None \<Longrightarrow> settleRemovals env [p] fs = remove p fs"
  by simp

lemma settle_rejected:
  "removeRejects env fs p = Some e \<Longrightarrow> settleRemovals env [p] fs = fs"
  by simp

lemma sampleEnv_settle:
  "files (settle sampleEnv (snd (reorder sampleEnv () [cE, cA] (Some cC) None emptyWorld)))
     ''/tmp/desktop-1/reorderTodo'' = None"
proof -
  have "removeRejects sampleEnv fs p = None" for fs p
    by (simp add: sampleEnv_def)
  then show ?thesis
    by (simp add: sampleEnv_reorder settle_def remove_def)
qed

lemma lockedEnv_settle:
  "files (settle lockedEnv (snd (reorder lockedEnv () [cE, cA] (Some cC) None emptyWorld)))
     ''/tmp/desktop-1/reorderTodo'' = Some [cB, cC, cA, cE, cD]"
  by (simp add: settle_def reorder_def reorderTry_def runRebase_def readFile_def lockedEnv_def
        sampleEnv_def logRange_def writeTodo_def visit_def isBaseCommit_def start_def
        appendFile_def emptyWorld_def)

section \<open>Failures\<close>

lemma computeScript_anchor_missing:
  assumes "toMove \<noteq> []" and "commits \<noteq> []"
    and "\<forall>c\<in>set commits. sha c \<in> set (map sha toMove) \<or> \<not> isBaseCommit (Some a) c"
  shows "computeScript commits toMove (Some a) = Inl AnchorNotFound"
  using assms(1,2) writeTodo_missing [OF assms(3)]
  by (simp add: computeScript_def)

text \<open>
  C6 (base commit missing). When the commits to move and the log are not empty and the
  hash of the base commit \<open>a\<close> is not in the log, the scheduling fails with
  \<open>AnchorNotFound\<close>. On the whole function: it returns \<^verbatim>\<open>RebaseResult.Error\<close> and
  prints nothing, so the rebase is never reached and no script is handed on; and the
  removal of the temporary file is started. When no write to the file is refused, the
  \<^verbatim>\<open>try\<close> block is left with \<open>AnchorNotFound\<close> after the whole log was traversed
  (every entry that is not moved has been written by then, in log order), and that is
  the error logged.
\<close>

theorem anchor_missing_failure:
  assumes "toMove \<noteq> []" and "commits \<noteq> []" and "sha a \<notin> set (map sha commits)"
    and "getCommits env repository (logRange env ref) = Inr commits"
    and "getTempFilePath env ''reorderTodo'' = Inr p"
  shows "computeScript commits toMove (Some a) = Inl AnchorNotFound
    \<and> fst (reorder env repository toMove (Some a) ref w) = Error
    \<and> console (snd (reorder env repository toMove (Some a) ref w)) = console w
    \<and> pendingRemovals (snd (reorder env repository toMove (Some a) ref w)) =
        pendingRemovals w @ [p]
    \<and> (fst (appendLines env p
               (filter (\<lambda>c. sha c \<notin> set (map sha toMove)) (rev commits)) (files w)) = None
        \<longrightarrow>
          reorderTry env repository toMove (Some a) ref w =
            (Inl AnchorNotFound, Some p,
             w\<lparr>files := snd (appendLines env p
                  (filter (\<lambda>c. sha c \<notin> set (map sha toMove)) (rev commits)) (files w))\<rparr>)
          \<and> errorLog (snd (reorder env repository toMove (Some a) ref w)) =
              errorLog w @ [AnchorNotFound])"
proof -
  have miss:
    "\<forall>c\<in>set commits. sha c \<in> set (map sha toMove) \<or> \<not> isBaseCommit (Some a) c"
  proof
    fix c
    assume "c \<in> set commits"
    then have "sha c \<in> set (map sha commits)" by simp
    with assms(3) have "sha c \<noteq> sha a" by metis
    then show "sha c \<in> set (map sha toMove) \<or> \<not> isBaseCommit (Some a) c"
      by (simp add: isBaseCommit_def)
  qed
  note w = writeTodo_missing [OF miss]
  note left = reorderTry_anchor_missing [OF assms(1,4,2,5) w, of w]
  note all = reorder_anchor_missing [OF assms(1,4,2,5) w, of w]
  from all have "fst (reorder env repository toMove (Some a) ref w) = Error"
    and "console (snd (reorder env repository toMove (Some a) ref w)) = console w"
    and "pendingRemovals (snd (reorder env repository toMove (Some a) ref w)) =
        pendingRemovals w @ [p]"
    by simp_all
  moreover from left all
  have "fst (appendLines env p
               (filter (\<lambda>c. sha c \<notin> set (map sha toMove)) (rev commits)) (files w)) = None
        \<longrightarrow>
          reorderTry env repository toMove (Some a) ref w =
            (Inl AnchorNotFound, Some p,
             w\<lparr>files := snd (appendLines env p
                  (filter (\<lambda>c. sha c \<notin> set (map sha toMove)) (rev commits)) (files w))\<rparr>)
          \<and> errorLog (snd (reorder env repository toMove (Some a) ref w)) =
              errorLog w @ [AnchorNotFound]"
    by simp
  moreover note computeScript_anchor_missing [OF assms(1,2) miss]
  ultimately show ?thesis by simp
qed

lemma unmoved_sample:
  "fst (appendLines sampleEnv ''/tmp/desktop-1/reorderTodo''
          (filter (\<lambda>c. sha c \<notin> set (map sha [cA])) (rev history)) (files emptyWorld)) = None"
  by (rule sampleEnv_writes)

theorem anchor_missing_failure_witness:
  "[cA] \<noteq> [] \<and> history \<noteq> [] \<and> sha cZ \<notin> set (map sha history)
   \<and> getCommits sampleEnv () (logRange sampleEnv None) = Inr history
   \<and> getTempFilePath sampleEnv ''reorderTodo'' = Inr ''/tmp/desktop-1/reorderTodo''
   \<and> fst (appendLines sampleEnv ''/tmp/desktop-1/reorderTodo''
          (filter (\<lambda>c. sha c \<notin> set (map sha [cA])) (rev history)) (files emptyWorld)) = None
   \<and> computeScript history [cA] (Some cZ) = Inl AnchorNotFound
   \<and> fst (reorder sampleEnv () [cA] (Some cZ) None emptyWorld) = Error
   \<and> console (snd (reorder sampleEnv () [cA] (Some cZ) None emptyWorld)) = console emptyWorld
   \<and> pendingRemovals (snd (reorder sampleEnv () [cA] (Some cZ) None emptyWorld)) =
        pendingRemovals emptyWorld @ [''/tmp/desktop-1/reorderTodo'']
   \<and> errorLog (snd (reorder sampleEnv () [cA] (Some cZ) None emptyWorld)) =
        errorLog emptyWorld @ [AnchorNotFound]"
proof -
  have h1: "[cA] \<noteq> []" and h2: "history \<noteq> []" and h3: "sha cZ \<notin> set (map sha history)"
    by simp_all
  note t = anchor_missing_failure
             [OF h1 h2 h3 sampleEnv_getCommits sampleEnv_getTempFilePath, of emptyWorld]
  note t1 = t [THEN conjunct1]
  note t2 = t [THEN conjunct2, THEN conjunct1]
  note t3 = t [THEN conjunct2, THEN conjunct2, THEN conjunct1]
  note t4 = t [THEN conjunct2, THEN conjunct2, THEN conjunct2, THEN conjunct1]
  note t5 = t [THEN conjunct2, THEN conjunct2, THEN conjunct2, THEN conjunct2,
               rule_format, OF unmoved_sample, THEN conjunct2]
  show ?thesis
    by (intro conjI)
      (rule h1 h2 h3 sampleEnv_getCommits sampleEnv_getTempFilePath unmoved_sample
            t1 t2 t3 t4 t5)+
qed

text \<open>
  C7 (guards), as amended. An empty list of commits to move fails with
  \<open>EmptyMoveSet\<close>, whatever the log is; an empty log fails with \<open>EmptyLog\<close> when the
  list of commits to move is not empty. In both cases the \<^verbatim>\<open>try\<close> block is left
  before a temporary path is taken and with the world as it was: nothing was traversed
  and nothing written. As stated the claim fails when both are empty: the first guard
  wins, and the log is not even read.
\<close>

theorem precondition_failures:
  "computeScript commits [] a = Inl EmptyMoveSet
   \<and> (toMove \<noteq> [] \<longrightarrow> computeScript [] toMove a = Inl EmptyLog)
   \<and> reorderTry env repository [] a ref w = (Inl EmptyMoveSet, None, w)
   \<and> (toMove \<noteq> [] \<and> getCommits env repository (logRange env ref) = Inr [] \<longrightarrow>
        reorderTry env repository toMove a ref w = (Inl EmptyLog, None, w))"
  by (simp add: computeScript_def reorderTry_def)

theorem precondition_failures_witness:
  "[cA] \<noteq> [] \<and> getCommits emptyLogEnv () (logRange emptyLogEnv None) = Inr []
   \<and> computeScript [] [cA] (Some cC) = Inl EmptyLog
   \<and> reorderTry emptyLogEnv () [cA] (Some cC) None emptyWorld = (Inl EmptyLog, None, emptyWorld)
   \<and> computeScript history [] (Some cC) = Inl EmptyMoveSet
   \<and> reorderTry emptyLogEnv () [] (Some cC) None emptyWorld = (Inl EmptyMoveSet, None, emptyWorld)"
proof -
  have h: "[cA] \<noteq> []" by simp
  note t = precondition_failures [of history "Some cC" "[cA]" emptyLogEnv "()" None emptyWorld]
  note t1 = t [THEN conjunct1]
  note t2 = t [THEN conjunct2, THEN conjunct1, rule_format, OF h]
  note t3 = t [THEN conjunct2, THEN conjunct2, THEN conjunct1]
  note t4 = t [THEN conjunct2, THEN conjunct2, THEN conjunct2, rule_format,
               OF conjI [OF h emptyLogEnv_getCommits]]
  show ?thesis
    by (intro conjI) (rule h emptyLogEnv_getCommits t1 t2 t3 t4)+
qed

theorem precondition_failures_counterexample:
  "getCommits emptyLogEnv () (logRange emptyLogEnv None) = Inr []
   \<and> fst (reorderTry emptyLogEnv () [] None None emptyWorld) = Inl EmptyMoveSet
   \<and> computeScript [] [] None = Inl EmptyMoveSet
   \<and> computeScript [] [] None \<noteq> Inl EmptyLog"
  by (simp add: emptyLogEnv_getCommits computeScript_def reorderTry_def)

text \<open>
  C9 (base commit among the commits to move). When the hash of the base commit \<open>a\<close>
  is a hash to move, the first branch of the loop takes every entry with that hash:
  \<^verbatim>\<open>foundBaseCommitInLog\<close> is still false after the traversal, and on a log that is
  not empty the scheduling fails with \<open>AnchorNotFound\<close>, so there is no script. The
  log only has to have an entry; in particular this is so when the hash of \<open>a\<close> is in
  the log.
\<close>

theorem anchor_in_moveSet_fails:
  assumes "sha a \<in> set (map sha toMove)" and "commits \<noteq> []"
  shows "\<not> foundBaseCommitInLog
             (traverse (set (map sha toMove)) (Some a) commits (length commits) start)
         \<and> computeScript commits toMove (Some a) = Inl AnchorNotFound"
proof -
  from assms have toMove: "toMove \<noteq> []" by auto
  from assms(1) have miss:
    "\<forall>c\<in>set commits. sha c \<in> set (map sha toMove) \<or> \<not> isBaseCommit (Some a) c"
    by (auto simp add: isBaseCommit_def)
  then have "\<forall>c\<in>set (rev commits). sha c \<in> set (map sha toMove) \<or> \<not> isBaseCommit (Some a) c"
    by simp
  from run_not_found [OF start_fields(1) this]
  have "\<not> foundBaseCommitInLog
             (traverse (set (map sha toMove)) (Some a) commits (length commits) start)"
    by (simp add: traverse_all)
  with computeScript_anchor_missing [OF toMove assms(2) miss] show ?thesis by simp
qed

theorem anchor_in_moveSet_fails_witness:
  "sha cC \<in> set (map sha [cA, cC]) \<and> history \<noteq> [] \<and> sha cC \<in> set (map sha history)
   \<and> \<not> foundBaseCommitInLog
         (traverse (set (map sha [cA, cC])) (Some cC) history (length history) start)
   \<and> computeScript history [cA, cC] (Some cC) = Inl AnchorNotFound"
proof -
  have h1: "sha cC \<in> set (map sha [cA, cC])" and h2: "history \<noteq> []"
    and h3: "sha cC \<in> set (map sha history)"
    by simp_all
  note t = anchor_in_moveSet_fails [OF h1 h2]
  show ?thesis
    by (intro conjI) (rule h1 h2 h3 t [THEN conjunct1] t [THEN conjunct2])+
qed

section \<open>The temporary file on return\<close>

lemma reorder_starts_removal:
  "(case fst (snd (reorderTry env repository toMove a ref w)) of
      None \<Rightarrow>
        files (snd (reorder env repository toMove a ref w)) = files w
        \<and> pendingRemovals (snd (reorder env repository toMove a ref w)) = pendingRemovals w
    | Some p \<Rightarrow>
        pendingRemovals (snd (reorder env repository toMove a ref w)) =
          pendingRemovals w @ [p])"
proof (cases "fst (snd (reorderTry env repository toMove a ref w))")
  case None
  with reorderTry_untouched [OF None] show ?thesis
    by (simp add: reorder_files reorder_pendingRemovals)
next
  case (Some p)
  then show ?thesis
    by (simp add: reorder_pendingRemovals)
qed

text \<open>
  C8 (clean-up): the code does not do what the claim says. On the sample run the rebase
  completes and the function returns with the temporary file still there, all five lines
  in it: line 159 has started the removal and nothing waits for it.
\<close>

theorem todo_file_left_on_return:
  "fst (reorder sampleEnv () [cE, cA] (Some cC) None emptyWorld) = Other ''CompletedWithoutError''
   \<and> files (snd (reorder sampleEnv () [cE, cA] (Some cC) None emptyWorld))
        ''/tmp/desktop-1/reorderTodo'' = Some [cB, cC, cA, cE, cD]
   \<and> pendingRemovals (snd (reorder sampleEnv () [cE, cA] (Some cC) None emptyWorld)) =
        [''/tmp/desktop-1/reorderTodo'']"
  by (simp add: sampleEnv_reorder)

section \<open>Hashes to move that are not in the log\<close>

lemma visit_cong: "(sha c \<in> S \<longleftrightarrow> sha c \<in> S') \<Longrightarrow> visit S a c st = visit S' a c st"
  by (simp add: visit_def)

lemma writeTodo_cong:
  assumes "\<forall>c\<in>set cs. sha c \<in> S \<longleftrightarrow> sha c \<in> S'"
  shows "writeTodo S a cs = writeTodo S' a cs"
proof -
  have "foldl (\<lambda>s c. visit S a c s) st xs = foldl (\<lambda>s c. visit S' a c s) st xs"
    if "\<forall>c\<in>set xs. sha c \<in> S \<longleftrightarrow> sha c \<in> S'" for xs st
    using that
  proof (induction xs arbitrary: st)
    case Nil
    then show ?case by simp
  next
    case (Cons x xs)
    then show ?case by (simp add: visit_cong [of x S S'])
  qed
  from this [of "rev cs" start] assms show ?thesis
    by (simp add: writeTodo_def traverse_all)
qed

text \<open>
  C10 (absent hashes), as amended. For a list of commits to move that is not empty,
  adding a hash \<open>h\<close> that is not in the log changes nothing: the result is the same,
  and \<open>h\<close> is not the hash of any line of the script. As stated the claim fails for the
  empty list: alone, it fails with \<open>EmptyMoveSet\<close>; with \<open>h\<close> added, the
  scheduling runs.
\<close>

theorem absent_hash_ignored:
  assumes "toMove \<noteq> []"
    and "set (map sha toMove') = insert h (set (map sha toMove))"
    and "h \<notin> set (map sha commits)"
  shows "computeScript commits toMove' a = computeScript commits toMove a
         \<and> (computeScript commits toMove' a = Inr script \<longrightarrow> h \<notin> set (map sha script))"
proof (intro conjI impI)
  from assms(2) have toMove': "toMove' \<noteq> []" by auto
  have "\<forall>c\<in>set commits. sha c \<in> set (map sha toMove') \<longleftrightarrow> sha c \<in> set (map sha toMove)"
  proof
    fix c
    assume "c \<in> set commits"
    then have "sha c \<in> set (map sha commits)" by simp
    with assms(3) have "sha c \<noteq> h" by metis
    with assms(2) show "sha c \<in> set (map sha toMove') \<longleftrightarrow> sha c \<in> set (map sha toMove)"
      by simp
  qed
  from writeTodo_cong [OF this] assms(1) toMove'
  show "computeScript commits toMove' a = computeScript commits toMove a"
    by (simp add: computeScript_def)
next
  assume "computeScript commits toMove' a = Inr script"
  then have "writeTodo (set (map sha toMove')) a commits = (None, script)"
    by (simp add: computeScript_Inr)
  with writeTodo_within [of "set (map sha toMove')" a commits]
  have "set script \<subseteq> set commits" by simp
  then have "set (map sha script) \<subseteq> set (map sha commits)" by auto
  with assms(3) show "h \<notin> set (map sha script)" by blast
qed

lemma absent_sample: "set (map sha [cZ, cE, cA]) = insert ''Z'' (set (map sha [cE, cA]))"
  by auto

theorem absent_hash_ignored_witness:
  "[cE, cA] \<noteq> [] \<and> set (map sha [cZ, cE, cA]) = insert ''Z'' (set (map sha [cE, cA]))
   \<and> ''Z'' \<notin> set (map sha history)
   \<and> computeScript history [cZ, cE, cA] (Some cC) = computeScript history [cE, cA] (Some cC)
   \<and> computeScript history [cE, cA] (Some cC) = Inr [cB, cC, cA, cE, cD]
   \<and> ''Z'' \<notin> set (map sha [cB, cC, cA, cE, cD])"
proof -
  have h1: "[cE, cA] \<noteq> []" and h3: "''Z'' \<notin> set (map sha history)" by simp_all
  note t = absent_hash_ignored [OF h1 absent_sample h3, of "Some cC" "[cB, cC, cA, cE, cD]"]
  note t1 = t [THEN conjunct1]
  note t2 = t [THEN conjunct2, rule_format, OF trans [OF t1 computeScript_sample]]
  show ?thesis
    by (intro conjI) (rule h1 absent_sample h3 t1 computeScript_sample t2)+
qed

theorem absent_hash_counterexample:
  "''Z'' \<notin> set (map sha history)
   \<and> set (map sha [cZ]) = insert ''Z'' (set (map sha ([] :: CommitOneLine list)))
   \<and> computeScript history [cZ] None = Inr [cA, cB, cC, cD, cE]
   \<and> computeScript history [] None = Inl EmptyMoveSet
   \<and> computeScript history [cZ] None \<noteq> computeScript history [] None"
  by (simp add: computeScript_def writeTodo_def visit_def isBaseCommit_def start_def)

end
